theory Spec2Isabelle
  imports
    Complex_Main
    "HOL-Library.Word"
    "HOL-Library.Multiset"
    "HOL-Library.List_Lexorder"
    "HOL-Library.Product_Lexorder"
begin

section \<open>mget: downloading a file in parts over http\<close>

text \<open>
  A shallow embedding of \<^verbatim>\<open>mget.py\<close>. Python's unbounded integers are \<open>int\<close>, a
  \<^verbatim>\<open>bytes\<close> value is a list of 8-bit words, a \<^verbatim>\<open>str\<close> is a \<open>string\<close>.
  Every \<^verbatim>\<open>exit(1)\<close> and every exception the code can raise is a value of \<open>error\<close>;
  a function that can fail returns \<open>error + 'a\<close> with \<open>Inl\<close> the failure.
\<close>

subsection \<open>Data\<close>

type_synonym byte = "8 word"
type_synonym bytes = "byte list"

text \<open>The two fields of \<^verbatim>\<open>urlparse(url)\<close> that the program reads.\<close>

record urlParts =
  netloc :: string
  path :: string

text \<open>
  \<open>SystemExit msg\<close> is \<^verbatim>\<open>print(msg); exit(1)\<close>: the diagnostic is the one printed
  just before the exit. \<open>TypeError\<close> and \<open>ValueError\<close> are the built-in exceptions the
  code lets escape; \<open>OSError\<close> stands for whatever the transport or the file system
  raises.
\<close>

datatype error = SystemExit string | TypeError | ValueError | OSError

text \<open>
  The tuple built by \<^verbatim>\<open>get_chunk_args\<close>:
  \<^verbatim>\<open>(urlParts, start, end, filename)\<close>, where the last component is the key under
  which the chunk's content is later sorted.
\<close>

type_synonym chunk_arg = "urlParts \<times> int \<times> int \<times> int"

subsection \<open>Built-ins the planner uses\<close>

text \<open>
  \<^verbatim>\<open>range(start, stop, step)\<close> for a non-zero step, as the list of the values it
  yields: upwards while the value is below \<open>stop\<close>, downwards while it is above.
\<close>

function range_from :: "int \<Rightarrow> int \<Rightarrow> int \<Rightarrow> int list" where
  "range_from i stop step =
     (if (0 < step \<and> i < stop) \<or> (step < 0 \<and> stop < i)
      then i # range_from (i + step) stop step
      else [])"
  by pat_completeness auto
termination
  by (relation "measure (\<lambda>(i, stop, step). nat (if 0 < step then stop - i else i - stop))")
     auto

declare range_from.simps [simp del]

text \<open>\<^verbatim>\<open>range\<close> raises \<^verbatim>\<open>ValueError\<close> when the step is zero.\<close>

definition py_range :: "int \<Rightarrow> int \<Rightarrow> int \<Rightarrow> error + int list" where
  "py_range start stop step =
     (if step = 0 then Inl ValueError else Inr (range_from start stop step))"

text \<open>
  The slice \<^verbatim>\<open>xs[:m]\<close>: the first \<open>m\<close> elements, and for a negative \<open>m\<close> all but
  the last \<open>-m\<close>.
\<close>

definition slice_to :: "'a list \<Rightarrow> int \<Rightarrow> 'a list" where
  "slice_to xs m =
     (if 0 \<le> m then take (nat m) xs else take (length xs - nat (- m)) xs)"

subsection \<open>The chunk plan of \<^verbatim>\<open>write_chunks\<close>\<close>

text \<open>
  \<^verbatim>\<open>def get_chunk_args(i): return (urlParts, i, min(i + chunk_size - 1, size), i)\<close>
\<close>

definition get_chunk_args :: "urlParts \<Rightarrow> int \<Rightarrow> int \<Rightarrow> int \<Rightarrow> chunk_arg" where
  "get_chunk_args urlP chunk_size sz i = (urlP, i, min (i + chunk_size - 1) sz, i)"

text \<open>
  \<^verbatim>\<open>max_size = (min(size, chunk_size * max_chunks + 10))\<close>
  \<^verbatim>\<open>chunk_args = [get_chunk_args(i) for i in range(0, max_size, chunk_size)][:max_chunks]\<close>
\<close>

definition chunk_args :: "urlParts \<Rightarrow> int \<Rightarrow> int \<Rightarrow> int \<Rightarrow> error + chunk_arg list" where
  "chunk_args urlP sz chunk_size max_chunks =
     (let max_size = min sz (chunk_size * max_chunks + 10) in
      case py_range 0 max_size chunk_size of
        Inl e \<Rightarrow> Inl e
      | Inr offsets \<Rightarrow>
          Inr (slice_to (map (get_chunk_args urlP chunk_size sz) offsets) max_chunks))"

text \<open>The byte window a planned chunk asks for, and its key.\<close>

definition arg_start :: "chunk_arg \<Rightarrow> int" where
  "arg_start a = fst (snd a)"

definition arg_end :: "chunk_arg \<Rightarrow> int" where
  "arg_end a = fst (snd (snd a))"

definition arg_key :: "chunk_arg \<Rightarrow> int" where
  "arg_key a = snd (snd (snd a))"

subsection \<open>The built-in \<^verbatim>\<open>int\<close> on a header value\<close>

text \<open>
  \<^verbatim>\<open>int(s)\<close> for a \<^verbatim>\<open>str\<close> in base ten: surrounding white space is dropped, one
  sign is allowed, then decimal digits, with single underscores allowed between
  digits. \<open>None\<close> is the \<^verbatim>\<open>ValueError\<close> of the built-in. A header value is decoded
  as Latin-1, one character per byte; among the first 256 code points \<^verbatim>\<open>int\<close> skips
  9 to 13, 32, 133 and 160 as white space (and not 28 to 31), and the only digits
  are \<open>0\<close> to \<open>9\<close>.
\<close>

definition is_space :: "char \<Rightarrow> bool" where
  "is_space c = ((of_char c :: nat) \<in> set [9, 10, 11, 12, 13, 32, 133, 160])"

definition is_digit :: "char \<Rightarrow> bool" where
  "is_digit c = (48 \<le> (of_char c :: nat) \<and> (of_char c :: nat) \<le> 57)"

definition digit_val :: "char \<Rightarrow> int" where
  "digit_val c = int (of_char c) - 48"

fun py_digits :: "int \<Rightarrow> string \<Rightarrow> int option" where
  "py_digits acc [] = Some acc"
| "py_digits acc (c # cs) =
     (if is_digit c then py_digits (10 * acc + digit_val c) cs
      else if c = CHR ''_'' then
        (case cs of
           [] \<Rightarrow> None
         | d # ds \<Rightarrow> if is_digit d then py_digits (10 * acc + digit_val d) ds else None)
      else None)"

definition py_decimal :: "string \<Rightarrow> int option" where
  "py_decimal s =
     (case s of
        [] \<Rightarrow> None
      | c # cs \<Rightarrow> if is_digit c then py_digits (digit_val c) cs else None)"

definition py_strip :: "string \<Rightarrow> string" where
  "py_strip s = rev (dropWhile is_space (rev (dropWhile is_space s)))"

text \<open>
  The interpreter's cap on the conversion (CPython 3.11, default setting): a string
  with more than 4300 digits is refused with a \<^verbatim>\<open>ValueError\<close>. Underscores, the
  sign and white space do not count; leading zeros do.
\<close>

definition max_str_digits :: nat where
  "max_str_digits = 4300"

definition py_int :: "string \<Rightarrow> int option" where
  "py_int s =
     (case py_strip s of
        [] \<Rightarrow> None
      | c # cs \<Rightarrow>
          if max_str_digits < length (filter is_digit (c # cs)) then None
          else if c = CHR ''-'' then map_option uminus (py_decimal cs)
          else if c = CHR ''+'' then py_decimal cs
          else py_decimal (c # cs))"

text \<open>
  The same reading, stated as the form of the text rather than as a scan: white
  space, an optional sign, a digit followed by digits each of which may be preceded
  by one underscore, white space; at most \<open>max_str_digits\<close> digits; the value is the
  number the digits denote, negated after a minus sign.
\<close>

inductive digit_tail :: "string \<Rightarrow> bool" where
  tail_end: "digit_tail []"
| tail_digit: "is_digit d \<Longrightarrow> digit_tail ds \<Longrightarrow> digit_tail (d # ds)"
| tail_underscore: "is_digit d \<Longrightarrow> digit_tail ds \<Longrightarrow> digit_tail (CHR ''_'' # d # ds)"

definition number_of :: "string \<Rightarrow> int" where
  "number_of ds = foldl (\<lambda>a c. 10 * a + digit_val c) 0 (filter is_digit ds)"

definition int_literal :: "string \<Rightarrow> int \<Rightarrow> bool" where
  "int_literal s n =
     (\<exists>l sg d ds r.
        s = l @ sg @ d # ds @ r
        \<and> list_all is_space l \<and> list_all is_space r
        \<and> (sg = [] \<or> sg = ''+'' \<or> sg = ''-'')
        \<and> is_digit d \<and> digit_tail ds
        \<and> length (filter is_digit (d # ds)) \<le> max_str_digits
        \<and> n = (if sg = ''-'' then - number_of (d # ds) else number_of (d # ds)))"

subsection \<open>The network and the file system\<close>

text \<open>
  The three requests the program sends. \<open>HEAD u\<close> is
  \<^verbatim>\<open>cnn.request('HEAD', path)\<close>; \<open>GET_probe u\<close> is the request of
  \<^verbatim>\<open>is_range_supported\<close>, whose header \<^verbatim>\<open>f'bytes={0-1}'\<close> is the text
  \<^verbatim>\<open>bytes=-1\<close>; \<open>GET_range u start end\<close> is the request of \<^verbatim>\<open>get_chunk\<close> with
  the header \<^verbatim>\<open>f'bytes={start}-{end}'\<close>.
\<close>

datatype request = HEAD urlParts | GET_probe urlParts | GET_range urlParts int int

text \<open>
  What the program reads of a response: \<^verbatim>\<open>resp.status\<close>,
  \<^verbatim>\<open>resp.getheader('Content-length')\<close> (\<open>None\<close> when the header is absent) and
  \<^verbatim>\<open>resp.read()\<close>.
\<close>

record response =
  status :: int
  content_length :: "string option"
  body :: bytes

text \<open>
  What the program does not decide: the answer (or the exception) to each request,
  the moment at which each submitted fetch finishes, and whether a path can be
  opened for writing. The answer is a function of the request: within one run the
  program sends no request twice.
\<close>

record env =
  respond :: "request \<Rightarrow> error + response"
  finish_time :: "chunk_arg \<Rightarrow> nat"
  writable :: "string \<Rightarrow> bool"

text \<open>
  What the program changes: the regular files, by path, and the requests sent so
  far, oldest first.
\<close>

record world =
  files :: "string \<rightharpoonup> bytes"
  requests :: "request list"

definition isfile :: "world \<Rightarrow> string \<Rightarrow> bool" where
  "isfile w f = (files w f \<noteq> None)"

subsection \<open>Probes\<close>

definition get_head_resp :: "env \<Rightarrow> urlParts \<Rightarrow> world \<Rightarrow> (error + response) \<times> world" where
  "get_head_resp env urlP w =
     (respond env (HEAD urlP), w\<lparr>requests := requests w @ [HEAD urlP]\<rparr>)"

text \<open>
  \<^verbatim>\<open>if resp.status != 200: print("File doesn't exist on server"); exit(1)\<close>
  \<^verbatim>\<open>return int(resp.getheader('Content-length'))\<close>: \<^verbatim>\<open>int(None)\<close> is a
  \<^verbatim>\<open>TypeError\<close>, \<^verbatim>\<open>int\<close> of a string that is no number a \<^verbatim>\<open>ValueError\<close>.
\<close>

definition get_size :: "env \<Rightarrow> urlParts \<Rightarrow> world \<Rightarrow> (error + int) \<times> world" where
  "get_size env urlP w =
     (case get_head_resp env urlP w of
        (Inl e, w') \<Rightarrow> (Inl e, w')
      | (Inr resp, w') \<Rightarrow>
          if status resp \<noteq> 200 then (Inl (SystemExit ''File doesn't exist on server''), w')
          else (case content_length resp of
                  None \<Rightarrow> (Inl TypeError, w')
                | Some s \<Rightarrow>
                    (case py_int s of
                       None \<Rightarrow> (Inl ValueError, w')
                     | Some n \<Rightarrow> (Inr n, w'))))"

definition is_range_supported :: "env \<Rightarrow> urlParts \<Rightarrow> world \<Rightarrow> (error + bool) \<times> world" where
  "is_range_supported env urlP w =
     (let w' = w\<lparr>requests := requests w @ [GET_probe urlP]\<rparr> in
      case respond env (GET_probe urlP) of
        Inl e \<Rightarrow> (Inl e, w')
      | Inr resp \<Rightarrow> (Inr (status resp = 206), w'))"

subsection \<open>Fetching the chunks\<close>

definition chunk_request :: "chunk_arg \<Rightarrow> request" where
  "chunk_request a = GET_range (fst a) (arg_start a) (arg_end a)"

text \<open>
  \<^verbatim>\<open>get_chunk\<close> returns \<^verbatim>\<open>(filename, content)\<close>; the status of the response is
  not looked at. An exception of the transport is the result \<open>Inl\<close>.
\<close>

definition get_chunk :: "env \<Rightarrow> chunk_arg \<Rightarrow> error + (int \<times> bytes)" where
  "get_chunk env a =
     (case respond env (chunk_request a) of
        Inl e \<Rightarrow> Inl e
      | Inr resp \<Rightarrow> Inr (arg_key a, body resp))"

text \<open>
  \<^verbatim>\<open>as_completed(ftr)\<close> yields every submitted fetch once, the one that finishes
  first coming first.
\<close>

definition as_completed :: "env \<Rightarrow> chunk_arg list \<Rightarrow> chunk_arg list" where
  "as_completed env args = sort_key (finish_time env) args"

text \<open>
  \<^verbatim>\<open>for f in as_completed(ftr): results.append(f.result())\<close>: the results in the
  order given, up to the first one that raises.
\<close>

fun results :: "(error + 'a) list \<Rightarrow> error + 'a list" where
  "results [] = Inr []"
| "results (Inl e # fs) = Inl e"
| "results (Inr x # fs) = (case results fs of Inl e \<Rightarrow> Inl e | Inr xs \<Rightarrow> Inr (x # xs))"

text \<open>
  \<^verbatim>\<open>write_chunks\<close>. \<^verbatim>\<open>ThreadPoolExecutor(max_workers=dop)\<close> raises
  \<^verbatim>\<open>ValueError\<close> for \<open>dop \<le> 0\<close>. Every planned fetch is submitted, and leaving the
  \<^verbatim>\<open>with\<close> block waits for all of them, so every chunk request is sent whether or
  not \<^verbatim>\<open>f.result()\<close> raises. (They are logged in the order of submission; the
  order in which the pool starts them is not modelled.)
\<close>

definition write_chunks ::
  "env \<Rightarrow> urlParts \<Rightarrow> int \<Rightarrow> int \<Rightarrow> int \<Rightarrow> world \<Rightarrow> (error + (int \<times> bytes) list) \<times> world" where
  "write_chunks env urlP chunk_size max_chunks dop w =
     (case get_size env urlP w of
        (Inl e, w1) \<Rightarrow> (Inl e, w1)
      | (Inr sz, w1) \<Rightarrow>
          (case chunk_args urlP sz chunk_size max_chunks of
             Inl e \<Rightarrow> (Inl e, w1)
           | Inr args \<Rightarrow>
               if dop \<le> 0 then (Inl ValueError, w1)
               else (results (map (get_chunk env) (as_completed env args)),
                     w1\<lparr>requests := requests w1 @ map chunk_request args\<rparr>)))"

subsection \<open>Writing the file\<close>

text \<open>\<^verbatim>\<open>with open(filename, 'wb') as f: pass\<close>\<close>

definition open_wb :: "env \<Rightarrow> string \<Rightarrow> world \<Rightarrow> (error + unit) \<times> world" where
  "open_wb env f w =
     (if writable env f then (Inr (), w\<lparr>files := (files w)(f \<mapsto> [])\<rparr>)
      else (Inl OSError, w))"

text \<open>\<^verbatim>\<open>with open(filename, 'ab') as f: f.write(part)\<close>\<close>

definition append_part :: "env \<Rightarrow> string \<Rightarrow> bytes \<Rightarrow> world \<Rightarrow> (error + unit) \<times> world" where
  "append_part env f part w =
     (if writable env f
      then (Inr (),
            w\<lparr>files := (files w)(f \<mapsto> (case files w f of None \<Rightarrow> [] | Some old \<Rightarrow> old) @ part)\<rparr>)
      else (Inl OSError, w))"

text \<open>\<^verbatim>\<open>for i, part in ...: with open(filename, 'ab') as f: f.write(part)\<close>\<close>

fun append_parts :: "env \<Rightarrow> string \<Rightarrow> (int \<times> bytes) list \<Rightarrow> world \<Rightarrow> (error + unit) \<times> world" where
  "append_parts env f [] w = (Inr (), w)"
| "append_parts env f ((i, part) # ps) w =
     (case append_part env f part w of
        (Inl e, w') \<Rightarrow> (Inl e, w')
      | (Inr u, w') \<Rightarrow> append_parts env f ps w')"

subsection \<open>\<^verbatim>\<open>mget\<close>\<close>

text \<open>\<^verbatim>\<open>path.split('/')[-1]\<close>: what follows the last slash.\<close>

definition last_segment :: "string \<Rightarrow> string" where
  "last_segment p = rev (takeWhile (\<lambda>c. c \<noteq> CHR ''/'') (rev p))"

text \<open>
  \<^verbatim>\<open>filename = filename or urlParts.path.split('/')[-1]\<close>: \<^verbatim>\<open>None\<close> and the empty
  string both give the name taken from the path.
\<close>

definition dest_filename :: "urlParts \<Rightarrow> string option \<Rightarrow> string" where
  "dest_filename urlP filename =
     (case filename of
        None \<Rightarrow> last_segment (path urlP)
      | Some f \<Rightarrow> if f = [] then last_segment (path urlP) else f)"

text \<open>
  \<^verbatim>\<open>mget(url, chunk_size, filename, max_chunks, force, dop)\<close>, from the parsed url on.
  \<^verbatim>\<open>sorted(parts)\<close> orders the \<^verbatim>\<open>(i, content)\<close> tuples lexicographically, which is
  the order of pairs and of lists here.
\<close>

definition mget ::
  "env \<Rightarrow> urlParts \<Rightarrow> int \<Rightarrow> string option \<Rightarrow> int \<Rightarrow> bool \<Rightarrow> int \<Rightarrow> world \<Rightarrow> (error + unit) \<times> world" where
  "mget env urlP chunk_size filename max_chunks force dop w =
     (let fname = dest_filename urlP filename in
      if \<not> force \<and> isfile w fname then (Inl (SystemExit (fname @ '' already exists'')), w)
      else
        (case is_range_supported env urlP w of
           (Inl e, w1) \<Rightarrow> (Inl e, w1)
         | (Inr supported, w1) \<Rightarrow>
             if \<not> supported then (Inl (SystemExit ''Server does not support Range header''), w1)
             else
               (case write_chunks env urlP chunk_size max_chunks dop w1 of
                  (Inl e, w2) \<Rightarrow> (Inl e, w2)
                | (Inr parts, w2) \<Rightarrow>
                    (case open_wb env fname w2 of
                       (Inl e, w3) \<Rightarrow> (Inl e, w3)
                     | (Inr u, w3) \<Rightarrow> append_parts env fname (sort parts) w3))))"

subsection \<open>Vocabulary for the properties\<close>

text \<open>\<open>a\<close> was sent before the first \<open>b\<close> (or \<open>a\<close> was sent and \<open>b\<close> never).\<close>

definition issued_before :: "request \<Rightarrow> request \<Rightarrow> request list \<Rightarrow> bool" where
  "issued_before a b sent = (a \<in> set (takeWhile (\<lambda>r. r \<noteq> b) sent))"

subsection \<open>A server that honours ranges\<close>

text \<open>
  A server holding the bytes \<open>src\<close> that declares the length \<open>cl\<close> and answers a
  range request with the bytes from \<open>start\<close> up to \<open>end\<close> inclusive, cut at the end
  of \<open>src\<close>; the suffix range of the probe gives the last byte.
\<close>

definition range_server :: "bytes \<Rightarrow> string \<Rightarrow> request \<Rightarrow> error + response" where
  "range_server src cl req =
     (case req of
        HEAD u \<Rightarrow> Inr \<lparr>status = 200, content_length = Some cl, body = []\<rparr>
      | GET_probe u \<Rightarrow>
          Inr \<lparr>status = 206, content_length = Some ''1'', body = drop (length src - 1) src\<rparr>
      | GET_range u start end' \<Rightarrow>
          Inr \<lparr>status = 206, content_length = None,
               body = take (nat (end' - start + 1)) (drop (nat start) src)\<rparr>)"

text \<open>
  The network answers every range request for \<open>u\<close> that starts inside \<open>src\<close> with the
  bytes of \<open>src\<close> from \<open>start\<close> up to \<open>end\<close> inclusive, cut at the end of \<open>src\<close>.
\<close>

definition honours_ranges :: "env \<Rightarrow> urlParts \<Rightarrow> bytes \<Rightarrow> bool" where
  "honours_ranges env u src =
     (\<forall>start end'. 0 \<le> start \<and> start \<le> end' \<and> start < int (length src) \<longrightarrow>
        (\<exists>r. respond env (GET_range u start end') = Inr r
           \<and> body r = take (nat (end' - start + 1)) (drop (nat start) src)))"

text \<open>A url, a network with that server, and a world with no file and no request yet.\<close>

definition example_url :: urlParts where
  "example_url = \<lparr>netloc = ''example.org'', path = ''/pub/data.bin''\<rparr>"

text \<open>In \<open>example_env\<close> the later a chunk starts in the file, the earlier its fetch finishes.\<close>

definition example_env :: "bytes \<Rightarrow> string \<Rightarrow> env" where
  "example_env src cl =
     \<lparr>respond = range_server src cl,
      finish_time = (\<lambda>a. nat (1000 - arg_start a)),
      writable = (\<lambda>f. True)\<rparr>"

text \<open>The same network, but the request \<open>bad\<close> raises.\<close>

definition flaky_env :: "bytes \<Rightarrow> string \<Rightarrow> request \<Rightarrow> env" where
  "flaky_env src cl bad =
     (example_env src cl)\<lparr>respond := (\<lambda>r. if r = bad then Inl OSError else range_server src cl r)\<rparr>"

text \<open>The same network, but the request \<open>bad\<close> is answered with \<open>resp\<close>.\<close>

definition faulty_env :: "bytes \<Rightarrow> string \<Rightarrow> request \<Rightarrow> response \<Rightarrow> env" where
  "faulty_env src cl bad resp =
     (example_env src cl)\<lparr>respond := (\<lambda>r. if r = bad then Inr resp else range_server src cl r)\<rparr>"

definition fresh_world :: world where
  "fresh_world = \<lparr>files = Map.empty, requests = []\<rparr>"

section \<open>Properties\<close>

lemma range_from_stop:
  "\<not> ((0 < step \<and> i < stop) \<or> (step < 0 \<and> stop < i)) \<Longrightarrow> range_from i stop step = []"
  by (subst range_from.simps) simp

subsection \<open>\<^verbatim>\<open>range\<close> with a positive step\<close>

lemma range_from_Cons:
  "(0 < step \<and> i < stop) \<or> (step < 0 \<and> stop < i) \<Longrightarrow>
     range_from i stop step = i # range_from (i + step) stop step"
  by (subst range_from.simps) simp

lemma ceil_nonpos: "0 < (step::int) \<Longrightarrow> a \<le> 0 \<Longrightarrow> (a + step - 1) div step \<le> 0"
proof -
  assume s: "0 < step" and a: "a \<le> 0"
  have "(a + step - 1) div step \<le> (step - 1) div step"
    using a s by (intro zdiv_mono1) auto
  also have "(step - 1) div step = 0" using s by simp
  finally show ?thesis .
qed

lemma ceil_step: "0 < (step::int) \<Longrightarrow> (a + step - 1) div step = (a - step + step - 1) div step + 1"
proof -
  assume s: "0 < step"
  have "(a + step - 1) div step = ((a - 1) + step) div step" by (simp add: algebra_simps)
  also have "\<dots> = (a - 1) div step + 1" using s by simp
  finally show ?thesis by simp
qed

lemma range_from_up:
  "0 < step \<Longrightarrow> range_from i stop step =
     map (\<lambda>k. i + int k * step) [0..<nat ((stop - i + step - 1) div step)]"
proof (induction i stop step rule: range_from.induct)
  case (1 i stop step)
  show ?case
  proof (cases "i < stop")
    case False
    with 1(2) have "(stop - i + step - 1) div step \<le> 0"
      using ceil_nonpos[of step "stop - i"] by simp
    with False 1(2) show ?thesis by (simp add: range_from_stop)
  next
    case True
    let ?n = "nat ((stop - i + step - 1) div step)"
    let ?m = "nat ((stop - (i + step) + step - 1) div step)"
    have "(stop - i + step - 1) div step = (stop - (i + step) + step - 1) div step + 1"
      using 1(2) ceil_step[of step "stop - i"] by (simp add: algebra_simps)
    moreover have "0 \<le> (stop - (i + step) + step - 1) div step"
      using True 1(2) by (simp add: pos_imp_zdiv_nonneg_iff)
    ultimately have n: "?n = Suc ?m" by linarith
    have ih: "range_from (i + step) stop step = map (\<lambda>k. i + step + int k * step) [0..<?m]"
      using 1(1) True 1(2) by simp
    have "range_from i stop step = i # range_from (i + step) stop step"
      using True 1(2) by (simp add: range_from_Cons)
    also have "\<dots> = i # map (\<lambda>k. i + step + int k * step) [0..<?m]" using ih by simp
    also have "\<dots> = map (\<lambda>k. i + int k * step) [0..<Suc ?m]"
      unfolding upt_conv_Cons[OF zero_less_Suc] map_Suc_upt[symmetric]
      by (simp add: algebra_simps del: upt_Suc)
    finally show ?thesis using n by simp
  qed
qed

text \<open>ceil(x / c) as integer division.\<close>

lemma lt_ceil_iff:
  assumes "0 < (c::int)"
  shows "j < (x + c - 1) div c \<longleftrightarrow> j * c < x"
proof -
  define q where "q = (x + c - 1) div c"
  define r where "r = (x + c - 1) mod c"
  have e: "q * c + r = x + c - 1" unfolding q_def r_def by simp
  have r: "0 \<le> r" "r < c" using assms unfolding r_def by simp_all
  have "j < q \<longleftrightarrow> j * c < x"
  proof
    assume "j < q"
    then have "j + 1 \<le> q" by simp
    then have "(j + 1) * c \<le> q * c" using assms by (simp add: mult_right_mono)
    then have "j * c + c \<le> q * c" by (simp add: distrib_right)
    then show "j * c < x" using e r by linarith
  next
    assume "j * c < x"
    then have "j * c + c < q * c + c" using e r by linarith
    then have "(j + 1) * c < (q + 1) * c" by (simp add: distrib_right)
    then have "j + 1 < q + 1" using assms by (simp only: mult_less_cancel_right)
    then show "j < q" by simp
  qed
  then show ?thesis unfolding q_def .
qed

lemma ceiling_div:
  assumes "0 < (c::int)"
  shows "\<lceil>real_of_int x / real_of_int c\<rceil> = (x + c - 1) div c"
proof -
  define q where "q = (x + c - 1) div c"
  have "q - 1 < q" by simp
  then have lo: "(q - 1) * c < x" using lt_ceil_iff[OF assms, of "q - 1" x] unfolding q_def by simp
  have "\<not> q < q" by simp
  then have hi: "x \<le> q * c" using lt_ceil_iff[OF assms, of q x] unfolding q_def by simp
  have c: "0 < real_of_int c" using assms by simp
  have "real_of_int ((q - 1) * c) < real_of_int x" using lo by (simp only: of_int_less_iff)
  then have 1: "real_of_int q - 1 < real_of_int x / real_of_int c"
    using c by (simp add: pos_less_divide_eq)
  have "real_of_int x \<le> real_of_int (q * c)" using hi by (simp only: of_int_le_iff)
  then have 2: "real_of_int x / real_of_int c \<le> real_of_int q"
    using c by (simp add: pos_divide_le_eq)
  from 1 2 have "\<lceil>real_of_int x / real_of_int c\<rceil> = q" by (rule ceiling_unique)
  then show ?thesis unfolding q_def .
qed

lemma ceil_mult: "0 < (c::int) \<Longrightarrow> (c * m + c - 1) div c = m"
proof -
  assume c: "0 < c"
  have "(c * m + c - 1) div c = ((c - 1) + c * m) div c" by (simp add: algebra_simps)
  also have "\<dots> = m + (c - 1) div c" using c by (simp only: div_mult_self2) 
  also have "(c - 1) div c = 0" using c by simp
  finally show ?thesis by simp
qed

lemma take_upt0: "take m [0..<n] = [0..<min m n]"
  by (cases "m \<le> n") (simp_all add: min_def)

lemma chunk_args_up:
  assumes "0 < C" "0 \<le> M"
  shows "chunk_args u S C M =
    Inr (map (\<lambda>k. get_chunk_args u C S (int k * C))
          [0..<min (nat M) (nat ((min S (C * M + 10) + C - 1) div C))])"
  using assms
  by (simp add: chunk_args_def py_range_def range_from_up slice_to_def take_map take_upt0 o_def)

lemma plan_count:
  assumes "0 < C" "0 < M"
  shows "min (nat M) (nat ((min S (C * M + 10) + C - 1) div C)) =
         nat ((min S (C * M) + C - 1) div C)"
proof (cases "S \<le> C * M")
  case True
  then have "(S + C - 1) div C \<le> (C * M + C - 1) div C"
    using assms by (intro zdiv_mono1) auto
  then have "(S + C - 1) div C \<le> M" using assms by (simp add: ceil_mult)
  with True assms show ?thesis by (auto simp: min_def)
next
  case False
  then have "C * M + 1 \<le> min S (C * M + 10)" by simp
  then have "(C * M + 1 + C - 1) div C \<le> (min S (C * M + 10) + C - 1) div C"
    using assms by (intro zdiv_mono1) auto
  moreover have "(C * M + 1 + C - 1) div C = M + 1"
    using assms ceil_mult[of C "M + 1"] by (simp add: algebra_simps)
  ultimately have "M \<le> (min S (C * M + 10) + C - 1) div C" by simp
  moreover have "(min S (C * M) + C - 1) div C = M"
    using False assms by (simp add: min_def ceil_mult)
  ultimately show ?thesis by (simp add: min_def)
qed

lemma chunk_args_plan:
  assumes "0 < C" "0 < M"
  shows "chunk_args u S C M =
    Inr (map (\<lambda>k. get_chunk_args u C S (int k * C))
          [0..<nat ((min S (C * M) + C - 1) div C)])"
  using assms chunk_args_up[of C M u S] plan_count[of C M S] by simp

lemma planned_window:
  assumes "chunk_args u S C M = Inr args" "a \<in> set args"
  shows "fst a = u \<and> arg_key a = arg_start a \<and> arg_end a = min (arg_start a + C - 1) S"
proof -
  from assms obtain offsets where
    "args = slice_to (map (get_chunk_args u C S) offsets) M"
    by (auto simp: chunk_args_def Let_def split: sum.splits)
  with assms(2) have "a \<in> set (map (get_chunk_args u C S) offsets)"
    by (auto simp: slice_to_def split: if_splits dest: in_set_takeD)
  then show ?thesis
    by (auto simp: get_chunk_args_def arg_key_def arg_start_def arg_end_def)
qed

subsection \<open>The chunk plan\<close>

text \<open>
  C1. The claim puts the end of every planned chunk at
  \<open>min (offset + C - 1) (S - 1)\<close>, and so the third chunk of the plan for
  \<open>S = 3000000\<close>, \<open>C = 1048576\<close>, \<open>M = 4\<close> at \<open>[2097152, 2999999]\<close>. The code caps the
  end at \<open>size\<close> (lemma \<open>planned_window\<close>), one past the last byte: the plan it
  computes for these numbers has the three offsets of the claim, and the last
  window is \<open>[2097152, 3000000]\<close>.
\<close>

theorem plan_three_million:
  "chunk_args u 3000000 1048576 4 =
     Inr [(u, 0, 1048575, 0), (u, 1048576, 2097151, 1048576), (u, 2097152, 3000000, 2097152)]"
  by (simp add: chunk_args_def py_range_def range_from_Cons range_from_stop slice_to_def
        get_chunk_args_def)

text \<open>
  C2. For positive \<open>S\<close>, \<open>C\<close> and \<open>M\<close> the plan exists, it has
  \<open>ceil(min(S, C * M) / C)\<close> chunks, and every chunk but the last asks for a window
  of exactly \<open>C\<close> bytes (\<open>end - start + 1 = C\<close>).
\<close>

theorem plan_count_and_spans:
  assumes "0 < S" "0 < C" "0 < M"
  shows "\<exists>args. chunk_args u S C M = Inr args
           \<and> int (length args) = \<lceil>real_of_int (min S (C * M)) / real_of_int C\<rceil>
           \<and> (\<forall>k. Suc k < length args \<longrightarrow>
                  arg_end (args ! k) - arg_start (args ! k) + 1 = C)"
proof -
  let ?n = "(min S (C * M) + C - 1) div C"
  let ?args = "map (\<lambda>k. get_chunk_args u C S (int k * C)) [0..<nat ?n]"
  have plan: "chunk_args u S C M = Inr ?args" using assms by (simp add: chunk_args_plan)
  have "0 < C * M" using assms by simp
  then have "0 \<le> min S (C * M) + C - 1" using assms by linarith
  then have "0 \<le> ?n" using assms by (simp only: pos_imp_zdiv_nonneg_iff)
  then have len: "int (length ?args) = \<lceil>real_of_int (min S (C * M)) / real_of_int C\<rceil>"
    using assms by (simp add: ceiling_div)
  have span: "arg_end (?args ! k) - arg_start (?args ! k) + 1 = C" if k: "Suc k < length ?args" for k
  proof -
    from k have "int (Suc k) < ?n" by simp
    then have "int (Suc k) * C < min S (C * M)" using assms lt_ceil_iff[of C "int (Suc k)"] by simp
    then have "int k * C + C < S" by (simp add: algebra_simps)
    moreover have "k < nat ?n" using k by simp
    ultimately show ?thesis
      by (simp add: get_chunk_args_def arg_end_def arg_start_def)
  qed
  from plan len span show ?thesis by blast
qed

theorem plan_count_and_spans_witness:
  "(0::int) < 5 \<and> (0::int) < 2 \<and> (0::int) < 4 \<and>
   (\<exists>args. chunk_args \<lparr>netloc = ''example.org'', path = ''/f''\<rparr> 5 2 4 = Inr args
      \<and> int (length args) = 3
      \<and> (\<forall>k. Suc k < length args \<longrightarrow> arg_end (args ! k) - arg_start (args ! k) + 1 = 2))"
  using plan_count_and_spans [of 5 2 4 "\<lparr>netloc = ''example.org'', path = ''/f''\<rparr>"]
  by simp

subsection \<open>What each step does to the world\<close>

lemma get_size_world:
  "snd (get_size env urlP w) = w\<lparr>requests := requests w @ [HEAD urlP]\<rparr>"
  by (simp add: get_size_def get_head_resp_def split: sum.splits option.splits)

lemma is_range_supported_world:
  "snd (is_range_supported env urlP w) = w\<lparr>requests := requests w @ [GET_probe urlP]\<rparr>"
  by (simp add: is_range_supported_def Let_def split: sum.splits)

lemma write_chunks_files: "files (snd (write_chunks env urlP C M dop w)) = files w"
proof -
  obtain r w1 where g: "get_size env urlP w = (r, w1)" by (cases "get_size env urlP w")
  then have "w1 = w\<lparr>requests := requests w @ [HEAD urlP]\<rparr>"
    using get_size_world[of env urlP w] by simp
  with g show ?thesis
    by (simp add: write_chunks_def split: sum.splits)
qed

lemma write_chunks_requests:
  "\<exists>rest. requests (snd (write_chunks env urlP C M dop w)) = requests w @ HEAD urlP # rest"
proof -
  obtain r w1 where g: "get_size env urlP w = (r, w1)" by (cases "get_size env urlP w")
  then have "w1 = w\<lparr>requests := requests w @ [HEAD urlP]\<rparr>"
    using get_size_world[of env urlP w] by simp
  with g show ?thesis
    by (simp add: write_chunks_def split: sum.splits)
qed

lemma append_part_requests: "requests (snd (append_part env f part w)) = requests w"
  by (simp add: append_part_def)

lemma append_parts_requests: "requests (snd (append_parts env f ps w)) = requests w"
proof (induction ps arbitrary: w)
  case Nil
  show ?case by simp
next
  case (Cons p ps)
  obtain i part where p: "p = (i, part)" by (cases p)
  obtain r w' where a: "append_part env f part w = (r, w')" by (cases "append_part env f part w")
  then have "requests w' = requests w" using append_part_requests[of env f part w] by simp
  with Cons.IH[of w'] a p show ?case by (cases r) simp_all
qed

lemma open_wb_requests: "requests (snd (open_wb env f w)) = requests w"
  by (simp add: open_wb_def)

lemma mget_requests:
  "requests (snd (mget env urlP C filename M force dop w)) = requests w
   \<or> (\<exists>rest. requests (snd (mget env urlP C filename M force dop w))
               = requests w @ GET_probe urlP # rest)"
proof (cases "\<not> force \<and> isfile w (dest_filename urlP filename)")
  case True
  then show ?thesis by (simp add: mget_def Let_def)
next
  case False
  let ?w1 = "w\<lparr>requests := requests w @ [GET_probe urlP]\<rparr>"
  obtain r where p: "is_range_supported env urlP w = (r, ?w1)"
    using is_range_supported_world[of env urlP w] by (cases "is_range_supported env urlP w") simp
  show ?thesis
  proof (cases r)
    case (Inl e)
    with False p show ?thesis by (simp add: mget_def Let_def)
  next
    case (Inr supported)
    show ?thesis
    proof (cases supported)
      case False
      with \<open>\<not> (\<not> force \<and> isfile w (dest_filename urlP filename))\<close> p Inr show ?thesis
        by (simp add: mget_def Let_def)
    next
      case True
      obtain r2 w2 where wc: "write_chunks env urlP C M dop ?w1 = (r2, w2)"
        by (cases "write_chunks env urlP C M dop ?w1")
      then obtain rest where w2: "requests w2 = requests w @ GET_probe urlP # HEAD urlP # rest"
        using write_chunks_requests[of env urlP C M dop ?w1] by auto
      show ?thesis
      proof (cases r2)
        case (Inl e)
        with \<open>\<not> (\<not> force \<and> isfile w (dest_filename urlP filename))\<close> p Inr True wc w2
        show ?thesis by (simp add: mget_def Let_def)
      next
        case (Inr parts)
        obtain r3 w3 where o: "open_wb env (dest_filename urlP filename) w2 = (r3, w3)"
          by (cases "open_wb env (dest_filename urlP filename) w2")
        then have w3: "requests w3 = requests w2"
          using open_wb_requests[of env "dest_filename urlP filename" w2] by simp
        from \<open>\<not> (\<not> force \<and> isfile w (dest_filename urlP filename))\<close> p \<open>r = Inr supported\<close> True wc Inr o w2 w3
        show ?thesis
          by (cases r3) (simp_all add: mget_def Let_def append_parts_requests)
      qed
    qed
  qed
qed

lemma py_int_example: "py_int ''0'' = Some 0" "py_int ''5'' = Some 5" "py_int ''abc'' = None"
  by (simp_all add: py_int_def py_strip_def py_decimal_def is_space_def is_digit_def
        digit_val_def max_str_digits_def)

subsection \<open>The checks before the download\<close>

text \<open>
  C6. When the destination file exists and \<^verbatim>\<open>force\<close> is false, \<^verbatim>\<open>mget\<close> exits with
  the diagnostic \<^verbatim>\<open><filename> already exists\<close> and the world is the one it started
  in: no request has been sent, and no file has changed.
\<close>

theorem destination_exists:
  assumes "isfile w (dest_filename urlP filename)" and "\<not> force"
  shows "mget env urlP C filename M force dop w =
           (Inl (SystemExit (dest_filename urlP filename @ '' already exists'')), w)"
  using assms by (simp add: mget_def Let_def)

theorem destination_exists_witness:
  "isfile (fresh_world\<lparr>files := [''data.bin'' \<mapsto> [7]]\<rparr>) (dest_filename example_url None)
   \<and> mget (example_env [1, 2, 3] ''3'') example_url 2 None 4 False 1
        (fresh_world\<lparr>files := [''data.bin'' \<mapsto> [7]]\<rparr>)
      = (Inl (SystemExit ''data.bin already exists''), fresh_world\<lparr>files := [''data.bin'' \<mapsto> [7]]\<rparr>)"
  using destination_exists [of "fresh_world\<lparr>files := [''data.bin'' \<mapsto> [7]]\<rparr>" example_url None
      False "example_env [1, 2, 3] ''3''" 2 4 1]
  by (simp add: isfile_def dest_filename_def last_segment_def example_url_def fresh_world_def)

text \<open>
  C5. \<^verbatim>\<open>is_range_supported\<close> returns whether the status of the probe's response
  is 206. When the probe is sent (the destination is absent or \<^verbatim>\<open>force\<close> is set) and
  the status is not 206, \<^verbatim>\<open>mget\<close> exits with the diagnostic
  \<^verbatim>\<open>Server does not support Range header\<close>; the only change to the world is the
  probe in the list of requests, so no file is created or overwritten.
\<close>

theorem range_unsupported:
  assumes "respond env (GET_probe urlP) = Inr resp"
  shows "fst (is_range_supported env urlP w) = Inr (status resp = 206)
       \<and> ((force \<or> \<not> isfile w (dest_filename urlP filename)) \<and> status resp \<noteq> 206 \<longrightarrow>
            mget env urlP C filename M force dop w =
              (Inl (SystemExit ''Server does not support Range header''),
               w\<lparr>requests := requests w @ [GET_probe urlP]\<rparr>))"
  using assms by (auto simp: mget_def is_range_supported_def Let_def)

theorem range_unsupported_witness:
  "respond ((example_env [1, 2, 3] ''3'')\<lparr>respond := (\<lambda>r. Inr \<lparr>status = 200, content_length = Some ''3'', body = [1, 2, 3]\<rparr>)\<rparr>)
     (GET_probe example_url) = Inr \<lparr>status = 200, content_length = Some ''3'', body = [1, 2, 3]\<rparr>
   \<and> \<not> isfile fresh_world (dest_filename example_url None)
   \<and> fst (is_range_supported
        ((example_env [1, 2, 3] ''3'')\<lparr>respond := (\<lambda>r. Inr \<lparr>status = 200, content_length = Some ''3'', body = [1, 2, 3]\<rparr>)\<rparr>)
        example_url fresh_world) = Inr False
   \<and> mget ((example_env [1, 2, 3] ''3'')\<lparr>respond := (\<lambda>r. Inr \<lparr>status = 200, content_length = Some ''3'', body = [1, 2, 3]\<rparr>)\<rparr>)
        example_url 2 None 4 False 1 fresh_world
      = (Inl (SystemExit ''Server does not support Range header''),
         fresh_world\<lparr>requests := [GET_probe example_url]\<rparr>)"
  using range_unsupported [of
      "(example_env [1, 2, 3] ''3'')\<lparr>respond := (\<lambda>r. Inr \<lparr>status = 200, content_length = Some ''3'', body = [1, 2, 3]\<rparr>)\<rparr>"
      example_url "\<lparr>status = 200, content_length = Some ''3'', body = [1, 2, 3]\<rparr>"
      fresh_world False None 2 4 1]
  by (simp add: isfile_def fresh_world_def)

subsection \<open>The size probe\<close>

text \<open>
  The scan \<open>py_int\<close> accepts exactly the texts of the form \<open>int_literal\<close>, with the
  value that form gives them.
\<close>

lemma digit_not_space: "is_digit c \<Longrightarrow> \<not> is_space c"
  by (auto simp: is_digit_def is_space_def)

lemma sign_facts:
  "\<not> is_digit CHR ''-''" "\<not> is_digit CHR ''+''" "\<not> is_digit CHR ''_''"
  "\<not> is_space CHR ''-''" "\<not> is_space CHR ''+''"
  by (simp_all add: is_digit_def is_space_def)

lemma digit_not_sign: "is_digit c \<Longrightarrow> c \<noteq> CHR ''-'' \<and> c \<noteq> CHR ''+'' \<and> c \<noteq> CHR ''_''"
  using sign_facts by auto

subsection \<open>The scan of the digits\<close>

lemma py_digits_tail:
  "digit_tail cs \<Longrightarrow>
     py_digits acc cs = Some (foldl (\<lambda>a c. 10 * a + digit_val c) acc (filter is_digit cs))"
  by (induction arbitrary: acc rule: digit_tail.induct) (simp_all add: sign_facts)

lemma py_digits_Some:
  "py_digits acc cs = Some n \<Longrightarrow>
     digit_tail cs \<and> n = foldl (\<lambda>a c. 10 * a + digit_val c) acc (filter is_digit cs)"
proof (induction acc cs rule: py_digits.induct)
  case (1 acc)
  then show ?case by (simp add: tail_end)
next
  case (2 acc c cs)
  show ?case
  proof (cases "is_digit c")
    case True
    with 2 show ?thesis by (simp add: tail_digit)
  next
    case False
    with "2.prems" obtain d ds where u: "c = CHR ''_''" "cs = d # ds" "is_digit d"
      and r: "py_digits (10 * acc + digit_val d) ds = Some n"
      by (auto split: if_splits list.splits)
    from "2.IH"(2)[OF False u(1) u(2) u(3) r] u False show ?thesis
      by (simp add: tail_underscore sign_facts)
  qed
qed

lemma py_decimal_iff:
  "py_decimal t = Some n \<longleftrightarrow>
     (\<exists>d ds. t = d # ds \<and> is_digit d \<and> digit_tail ds \<and> n = number_of (d # ds))"
proof
  assume a: "py_decimal t = Some n"
  then obtain d ds where t: "t = d # ds" "is_digit d" "py_digits (digit_val d) ds = Some n"
    by (auto simp: py_decimal_def split: list.splits if_splits)
  from py_digits_Some[OF t(3)] t show
    "\<exists>d ds. t = d # ds \<and> is_digit d \<and> digit_tail ds \<and> n = number_of (d # ds)"
    by (simp add: number_of_def)
next
  assume "\<exists>d ds. t = d # ds \<and> is_digit d \<and> digit_tail ds \<and> n = number_of (d # ds)"
  then obtain d ds where t: "t = d # ds" "is_digit d" "digit_tail ds" "n = number_of (d # ds)"
    by blast
  from py_digits_tail[OF t(3), of "digit_val d"] t show "py_decimal t = Some n"
    by (simp add: py_decimal_def number_of_def)
qed

lemma digit_tail_last: "digit_tail ds \<Longrightarrow> ds \<noteq> [] \<Longrightarrow> is_digit (last ds)"
  by (induction rule: digit_tail.induct) auto

subsection \<open>Stripping white space\<close>

lemma py_strip_decomp:
  "\<exists>l r. s = l @ py_strip s @ r \<and> list_all is_space l \<and> list_all is_space r"
proof -
  let ?l = "takeWhile is_space s" and ?u = "dropWhile is_space s"
  let ?r = "rev (takeWhile is_space (rev ?u))"
  have "?u = rev (takeWhile is_space (rev ?u) @ dropWhile is_space (rev ?u))"
    by (simp only: takeWhile_dropWhile_id rev_rev_ident)
  then have u: "?u = py_strip s @ ?r" by (simp only: rev_append py_strip_def)
  have "s = ?l @ ?u" by (simp only: takeWhile_dropWhile_id)
  with u have "s = ?l @ py_strip s @ ?r" by simp
  moreover have "list_all is_space ?l" by (simp add: list_all_iff) (meson set_takeWhileD)
  moreover have "list_all is_space ?r" by (simp add: list_all_iff) (meson set_takeWhileD)
  ultimately show ?thesis by blast
qed

lemma py_strip_eq:
  assumes "list_all is_space l" "list_all is_space r" "t \<noteq> []"
    "\<not> is_space (hd t)" "\<not> is_space (last t)"
  shows "py_strip (l @ t @ r) = t"
proof -
  have "dropWhile is_space (l @ t @ r) = dropWhile is_space (t @ r)"
    by (rule dropWhile_append2) (use assms(1) in \<open>simp add: list_all_iff\<close>)
  also have "\<dots> = t @ r" using assms(3,4) by (cases t) simp_all
  finally have 1: "dropWhile is_space (l @ t @ r) = t @ r" .
  have "dropWhile is_space (rev r @ rev t) = dropWhile is_space (rev t)"
    by (rule dropWhile_append2) (use assms(2) in \<open>simp add: list_all_iff\<close>)
  also have "\<dots> = rev t" using assms(3,5) by (cases "rev t") (simp_all add: hd_rev[symmetric])
  finally have 2: "dropWhile is_space (rev r @ rev t) = rev t" .
  have "py_strip (l @ t @ r) = rev (dropWhile is_space (rev (t @ r)))"
    using 1 by (simp only: py_strip_def)
  also have "\<dots> = t" using 2 by simp
  finally show ?thesis .
qed

subsection \<open>The scan and the form agree\<close>

lemma int_literalI:
  assumes "s = l @ sg @ d # ds @ r" "list_all is_space l" "list_all is_space r"
    "sg = [] \<or> sg = ''+'' \<or> sg = ''-''" "is_digit d" "digit_tail ds"
    "length (filter is_digit (d # ds)) \<le> max_str_digits"
    "n = (if sg = ''-'' then - number_of (d # ds) else number_of (d # ds))"
  shows "int_literal s n"
  unfolding int_literal_def using assms by blast

lemma py_int_literal:
  assumes "int_literal s n"
  shows "py_int s = Some n"
proof -
  from assms obtain l sg d ds r where
    s: "s = l @ sg @ d # ds @ r" and l: "list_all is_space l" and r: "list_all is_space r"
    and sg: "sg = [] \<or> sg = ''+'' \<or> sg = ''-''"
    and d: "is_digit d" and ds: "digit_tail ds"
    and cap: "length (filter is_digit (d # ds)) \<le> max_str_digits"
    and n: "n = (if sg = ''-'' then - number_of (d # ds) else number_of (d # ds))"
    unfolding int_literal_def by blast
  let ?t = "sg @ d # ds"
  have "is_digit (last (d # ds))" using d digit_tail_last[OF ds] by simp
  then have lst: "\<not> is_space (last ?t)" by (simp add: digit_not_space)
  have hd: "\<not> is_space (hd ?t)" using sg d by (auto simp: sign_facts digit_not_space)
  have "s = l @ ?t @ r" using s by simp
  then have strip: "py_strip s = ?t"
    using py_strip_eq[OF l r _ hd lst] by simp
  have dec: "py_decimal (d # ds) = Some (number_of (d # ds))"
    using d ds by (simp add: py_decimal_iff)
  have nosign: "d \<noteq> CHR ''-''" "d \<noteq> CHR ''+''" using digit_not_sign[OF d] by simp_all
  from sg show ?thesis
  proof (elim disjE)
    assume e: "sg = []"
    then have "py_strip s = d # ds" using strip by simp
    then show ?thesis using dec cap n e nosign by (simp add: py_int_def)
  next
    assume e: "sg = ''+''"
    then have "py_strip s = CHR ''+'' # d # ds" using strip by simp
    then show ?thesis using dec cap n e by (simp add: py_int_def sign_facts)
  next
    assume e: "sg = ''-''"
    then have "py_strip s = CHR ''-'' # d # ds" using strip by simp
    then show ?thesis using dec cap n e by (simp add: py_int_def sign_facts)
  qed
qed

lemma literal_py_int:
  assumes a: "py_int s = Some n"
  shows "int_literal s n"
proof -
  obtain l r where s: "s = l @ py_strip s @ r" and l: "list_all is_space l"
    and r: "list_all is_space r" using py_strip_decomp by blast
  from a obtain c cs where t: "py_strip s = c # cs"
    by (cases "py_strip s") (simp_all add: py_int_def)
  have cap: "length (filter is_digit (c # cs)) \<le> max_str_digits"
  proof (rule ccontr)
    assume "\<not> length (filter is_digit (c # cs)) \<le> max_str_digits"
    then have "py_int s = None" using t by (simp add: py_int_def)
    with a show False by simp
  qed
  then have body: "py_int s =
      (if c = CHR ''-'' then map_option uminus (py_decimal cs)
       else if c = CHR ''+'' then py_decimal cs else py_decimal (c # cs))"
    using t by (simp add: py_int_def)
  consider (minus) "c = CHR ''-''" | (plus) "c = CHR ''+''"
    | (none) "c \<noteq> CHR ''-''" "c \<noteq> CHR ''+''"
    by blast
  then show ?thesis
  proof cases
    case minus
    with a body obtain m where m: "py_decimal cs = Some m" "n = - m" by auto
    from m(1) obtain d ds where b: "cs = d # ds" "is_digit d" "digit_tail ds"
      "m = number_of (d # ds)" unfolding py_decimal_iff by blast
    have 1: "s = l @ ''-'' @ d # ds @ r" using s t minus b(1) by simp
    have 2: "length (filter is_digit (d # ds)) \<le> max_str_digits"
      using cap minus b(1) by (simp add: sign_facts)
    show ?thesis
      by (rule int_literalI[OF 1 l r _ b(2) b(3) 2]) (simp_all add: m(2) b(4))
  next
    case plus
    with a body have "py_decimal cs = Some n" by simp
    then obtain d ds where b: "cs = d # ds" "is_digit d" "digit_tail ds"
      "n = number_of (d # ds)" unfolding py_decimal_iff by blast
    have 1: "s = l @ ''+'' @ d # ds @ r" using s t plus b(1) by simp
    have 2: "length (filter is_digit (d # ds)) \<le> max_str_digits"
      using cap plus b(1) by (simp add: sign_facts)
    show ?thesis
      by (rule int_literalI[OF 1 l r _ b(2) b(3) 2]) (simp_all add: b(4))
  next
    case none
    with a body have "py_decimal (c # cs) = Some n" by simp
    then have b: "is_digit c" "digit_tail cs" "n = number_of (c # cs)"
      unfolding py_decimal_iff by auto
    have 1: "s = l @ [] @ c # cs @ r" using s t by simp
    show ?thesis
      by (rule int_literalI[OF 1 l r _ b(1) b(2) cap]) (simp_all add: b(3))
  qed
qed

lemma py_int_iff: "py_int s = Some n \<longleftrightarrow> int_literal s n"
  using py_int_literal literal_py_int by blast

lemma py_int_None_iff: "py_int s = None \<longleftrightarrow> (\<forall>n. \<not> int_literal s n)"
proof (cases "py_int s")
  case None
  then show ?thesis using py_int_literal[of s] by auto
next
  case (Some m)
  then show ?thesis using literal_py_int[of s m] by auto
qed

lemma py_strip_digits:
  assumes "s \<noteq> []" "list_all is_digit s"
  shows "py_strip s = s"
proof -
  from assms have "is_digit (hd s)" "is_digit (last s)" by (simp_all add: list_all_iff)
  then have "\<not> is_space (hd s)" "\<not> is_space (last s)" by (simp_all add: digit_not_space)
  from py_strip_eq[of "[]" "[]" s, OF _ _ assms(1) this] show ?thesis by simp
qed

lemma too_many_digits:
  assumes "list_all is_digit s" "max_str_digits < length s"
  shows "py_int s = None"
proof -
  from assms(2) obtain c cs where s: "s = c # cs" by (cases s) auto
  then have "py_strip s = c # cs" using py_strip_digits[OF _ assms(1)] by simp
  moreover have "filter is_digit (c # cs) = c # cs"
    using assms(1) s by (simp only: filter_True list_all_iff[symmetric])
  ultimately show ?thesis using assms(2) s by (simp add: py_int_def)
qed

lemma get_size_value:
  assumes "respond env (HEAD urlP) = Inr resp"
  shows "fst (get_size env urlP w) =
    (if status resp \<noteq> 200 then Inl (SystemExit ''File doesn't exist on server'')
     else case content_length resp of
            None \<Rightarrow> Inl TypeError
          | Some s \<Rightarrow> (case py_int s of None \<Rightarrow> Inl ValueError | Some n \<Rightarrow> Inr n))"
  using assms by (simp add: get_size_def get_head_resp_def split: option.splits)

lemma py_int_samples:
  "py_int ''12'' = Some 12" "py_int ''1 2'' = None" "py_int ''1_000'' = Some 1000"
  "py_int ''-5'' = Some (- 5)"
  by (simp_all add: py_int_def py_strip_def py_decimal_def is_space_def is_digit_def
        digit_val_def max_str_digits_def)

lemma head_examples:
  "respond (example_env src cl) (HEAD u) = Inr \<lparr>status = 200, content_length = Some cl, body = []\<rparr>"
  "respond (faulty_env src cl (HEAD u) resp) (HEAD u) = Inr resp"
  by (simp_all add: example_env_def faulty_env_def range_server_def)

text \<open>
  C7, as claimed: \<^verbatim>\<open>get_size\<close> fails whenever the \<^verbatim>\<open>Content-length\<close> header is not
  numeric, and returns the declared length whenever it is. The code hands the header
  to \<^verbatim>\<open>int\<close> and checks nothing else. The headers \<^verbatim>\<open>1_000\<close> and \<^verbatim>\<open>-5\<close> are not
  strings of decimal digits, and \<^verbatim>\<open>get_size\<close> returns 1000 and -5 for them; a
  header of 4301 digits is numeric, and \<^verbatim>\<open>get_size\<close> fails on it with the
  \<^verbatim>\<open>ValueError\<close> of the interpreter's cap.
\<close>

theorem size_unavailable_counterexample:
  "\<not> list_all is_digit ''1_000''
   \<and> fst (get_size (example_env [] ''1_000'') example_url fresh_world) = Inr 1000
   \<and> \<not> list_all is_digit ''-5''
   \<and> fst (get_size (example_env [] ''-5'') example_url fresh_world) = Inr (- 5)
   \<and> list_all is_digit (replicate 4301 CHR ''1'')
   \<and> fst (get_size (example_env [] (replicate 4301 CHR ''1'')) example_url fresh_world)
       = Inl ValueError"
proof -
  have d: "list_all is_digit (replicate 4301 CHR ''1'')"
    by (simp add: list_all_iff is_digit_def)
  then have "py_int (replicate 4301 CHR ''1'') = None"
    by (rule too_many_digits) (simp add: max_str_digits_def)
  then show ?thesis
    using d by (simp add: get_size_value[OF head_examples(1)] py_int_samples is_digit_def)
qed

text \<open>
  C7, amended. Given the response to the \<^verbatim>\<open>HEAD\<close> request, \<^verbatim>\<open>get_size\<close> fails when
  the status is not 200 (the exit after \<^verbatim>\<open>File doesn't exist on server\<close>), when the
  \<^verbatim>\<open>Content-length\<close> header is absent (a \<^verbatim>\<open>TypeError\<close>) and when its value is not
  of the form \<open>int_literal\<close> (a \<^verbatim>\<open>ValueError\<close>); with status 200 and a value of that
  form it returns the integer the value denotes.
\<close>

theorem get_size_result:
  assumes "respond env (HEAD urlP) = Inr resp"
  shows "(status resp \<noteq> 200 \<longrightarrow>
            fst (get_size env urlP w) = Inl (SystemExit ''File doesn't exist on server''))
       \<and> (status resp = 200 \<and> content_length resp = None \<longrightarrow>
            fst (get_size env urlP w) = Inl TypeError)
       \<and> (\<forall>s. status resp = 200 \<and> content_length resp = Some s \<and> (\<forall>n. \<not> int_literal s n) \<longrightarrow>
            fst (get_size env urlP w) = Inl ValueError)
       \<and> (\<forall>s n. status resp = 200 \<and> content_length resp = Some s \<and> int_literal s n \<longrightarrow>
            fst (get_size env urlP w) = Inr n)"
proof (intro conjI allI impI)
  assume "status resp \<noteq> 200"
  then show "fst (get_size env urlP w) = Inl (SystemExit ''File doesn't exist on server'')"
    by (simp add: get_size_value[OF assms])
next
  assume "status resp = 200 \<and> content_length resp = None"
  then show "fst (get_size env urlP w) = Inl TypeError"
    by (simp add: get_size_value[OF assms])
next
  fix s assume h: "status resp = 200 \<and> content_length resp = Some s \<and> (\<forall>n. \<not> int_literal s n)"
  then have "py_int s = None" by (simp add: py_int_None_iff)
  with h show "fst (get_size env urlP w) = Inl ValueError"
    by (simp add: get_size_value[OF assms])
next
  fix s n assume h: "status resp = 200 \<and> content_length resp = Some s \<and> int_literal s n"
  then have "py_int s = Some n" by (simp add: py_int_literal)
  with h show "fst (get_size env urlP w) = Inr n"
    by (simp add: get_size_value[OF assms])
qed

theorem get_size_result_witness:
  "fst (get_size (example_env [] ''12'') example_url fresh_world) = Inr 12
   \<and> fst (get_size (example_env [] ''1 2'') example_url fresh_world) = Inl ValueError
   \<and> fst (get_size (faulty_env [] ''12'' (HEAD example_url)
              \<lparr>status = 200, content_length = None, body = []\<rparr>) example_url fresh_world)
       = Inl TypeError
   \<and> fst (get_size (faulty_env [] ''12'' (HEAD example_url)
              \<lparr>status = 404, content_length = Some ''12'', body = []\<rparr>) example_url fresh_world)
       = Inl (SystemExit ''File doesn't exist on server'')"
proof -
  have lit: "int_literal ''12'' 12" using py_int_samples(1) by (rule literal_py_int)
  have nolit: "\<forall>n. \<not> int_literal ''1 2'' n"
    using py_int_samples(2) py_int_None_iff[of "''1 2''"] by blast
  have 1: "fst (get_size (example_env [] ''12'') example_url fresh_world) = Inr 12"
    using get_size_result [of "example_env [] ''12''" example_url
        "\<lparr>status = 200, content_length = Some ''12'', body = []\<rparr>" fresh_world] lit
    by (simp add: head_examples)
  have 2: "fst (get_size (example_env [] ''1 2'') example_url fresh_world) = Inl ValueError"
    using get_size_result [of "example_env [] ''1 2''" example_url
        "\<lparr>status = 200, content_length = Some ''1 2'', body = []\<rparr>" fresh_world] nolit
    by (simp add: head_examples)
  have 3: "fst (get_size (faulty_env [] ''12'' (HEAD example_url)
              \<lparr>status = 200, content_length = None, body = []\<rparr>) example_url fresh_world)
       = Inl TypeError"
    using get_size_result [of "faulty_env [] ''12'' (HEAD example_url)
          \<lparr>status = 200, content_length = None, body = []\<rparr>" example_url
        "\<lparr>status = 200, content_length = None, body = []\<rparr>" fresh_world]
    by (simp add: head_examples)
  have 4: "fst (get_size (faulty_env [] ''12'' (HEAD example_url)
              \<lparr>status = 404, content_length = Some ''12'', body = []\<rparr>) example_url fresh_world)
       = Inl (SystemExit ''File doesn't exist on server'')"
    using get_size_result [of "faulty_env [] ''12'' (HEAD example_url)
          \<lparr>status = 404, content_length = Some ''12'', body = []\<rparr>" example_url
        "\<lparr>status = 404, content_length = Some ''12'', body = []\<rparr>" fresh_world]
    by (simp add: head_examples)
  from 1 2 3 4 show ?thesis by simp
qed

subsection \<open>An empty remote file\<close>

text \<open>
  C9. When the destination is absent or \<^verbatim>\<open>force\<close> is set, the probe is answered
  with status 206, the \<^verbatim>\<open>HEAD\<close> request with status 200 and a length that reads as
  0, the chunk size and the number of workers are positive and the destination can
  be opened for writing, \<^verbatim>\<open>mget\<close> returns normally and the destination file
  exists and is empty.
\<close>

theorem empty_file:
  assumes "force \<or> \<not> isfile w (dest_filename urlP filename)"
    and "respond env (GET_probe urlP) = Inr r1" and "status r1 = 206"
    and "respond env (HEAD urlP) = Inr r2" and "status r2 = 200"
    and "content_length r2 = Some s" and "py_int s = Some 0"
    and "0 < C" and "0 < dop"
    and "writable env (dest_filename urlP filename)"
  shows "fst (mget env urlP C filename M force dop w) = Inr ()
       \<and> files (snd (mget env urlP C filename M force dop w)) (dest_filename urlP filename) = Some []"
proof -
  have "range_from 0 x C = []" if "x \<le> 0" for x
    using that assms(8) by (simp add: range_from_stop)
  then have plan: "chunk_args urlP 0 C M = Inr []"
    using assms(8) by (simp add: chunk_args_def Let_def py_range_def slice_to_def)
  show ?thesis
    using assms plan 
    by (auto simp: mget_def is_range_supported_def Let_def write_chunks_def get_size_def
          get_head_resp_def open_wb_def as_completed_def)
qed

theorem empty_file_witness:
  "\<not> isfile fresh_world (dest_filename example_url None)
   \<and> status \<lparr>status = 206, content_length = Some ''1'', body = []\<rparr> = 206
   \<and> py_int ''0'' = Some 0
   \<and> writable (example_env [] ''0'') (dest_filename example_url None)
   \<and> fst (mget (example_env [] ''0'') example_url 1048576 None 4 False 1 fresh_world) = Inr ()
   \<and> files (snd (mget (example_env [] ''0'') example_url 1048576 None 4 False 1 fresh_world))
        ''data.bin'' = Some []"
  using empty_file [of False fresh_world example_url None "example_env [] ''0''"
      "\<lparr>status = 206, content_length = Some ''1'', body = []\<rparr>"
      "\<lparr>status = 200, content_length = Some ''0'', body = []\<rparr>" "''0''" 1048576 1 4]
  by (simp add: isfile_def fresh_world_def example_env_def range_server_def py_int_example
        dest_filename_def last_segment_def example_url_def)

subsection \<open>A run on five bytes\<close>

text \<open>
  The file \<open>[1, 2, 3, 4, 5]\<close> fetched in chunks of two bytes, the fetches finishing
  in the reverse of the order of submission.
\<close>

lemma example_plan:
  "chunk_args example_url 5 2 4 =
     Inr [(example_url, 0, 1, 0), (example_url, 2, 3, 2), (example_url, 4, 5, 4)]"
  by (simp add: chunk_args_def Let_def py_range_def range_from_Cons range_from_stop slice_to_def
        get_chunk_args_def)

lemma example_dest: "dest_filename example_url None = ''data.bin''"
  by (simp add: dest_filename_def last_segment_def example_url_def)

lemma example_run:
  "mget (example_env [1, 2, 3, 4, 5] ''5'') example_url 2 None 4 False 1 fresh_world =
     (Inr (),
      \<lparr>files = [''data.bin'' \<mapsto> [1, 2, 3, 4, 5]],
       requests = [GET_probe example_url, HEAD example_url, GET_range example_url 0 1,
                   GET_range example_url 2 3, GET_range example_url 4 5]\<rparr>)"
  by (simp add: mget_def Let_def is_range_supported_def write_chunks_def get_size_def
        get_head_resp_def open_wb_def append_part_def as_completed_def example_plan
        py_int_example isfile_def fresh_world_def example_env_def range_server_def
        get_chunk_def chunk_request_def arg_start_def arg_end_def arg_key_def
        example_dest)

subsection \<open>The order of the two probes\<close>

text \<open>
  C8, as claimed: the size probe is sent before the range-support check. The code
  does the opposite: \<^verbatim>\<open>mget\<close> calls \<^verbatim>\<open>is_range_supported\<close> first, and the
  \<^verbatim>\<open>HEAD\<close> request is sent by \<^verbatim>\<open>get_size\<close> inside \<^verbatim>\<open>write_chunks\<close>. For an
  empty remote file the requests are the range probe and then the size probe.
\<close>

theorem size_probe_first_counterexample:
  "requests (snd (mget (example_env [] ''0'') example_url 1048576 None 4 False 1 fresh_world))
     = [GET_probe example_url, HEAD example_url]
   \<and> \<not> issued_before (HEAD example_url) (GET_probe example_url)
        (requests (snd (mget (example_env [] ''0'') example_url 1048576 None 4 False 1 fresh_world)))"
proof -
  have plan: "chunk_args example_url 0 1048576 4 = Inr []"
    by (simp add: chunk_args_def Let_def py_range_def slice_to_def range_from_stop)
  have "requests (snd (mget (example_env [] ''0'') example_url 1048576 None 4 False 1 fresh_world))
     = [GET_probe example_url, HEAD example_url]"
    by (simp add: mget_def Let_def is_range_supported_def write_chunks_def get_size_def
        get_head_resp_def open_wb_def as_completed_def plan py_int_example isfile_def
        fresh_world_def example_env_def range_server_def)
  then show ?thesis by (simp add: issued_before_def)
qed

text \<open>
  C8, amended: whenever \<^verbatim>\<open>mget\<close> sends a request at all, the first one is the
  range-support check; it precedes the size probe, and the size probe never
  precedes it.
\<close>

theorem range_check_first:
  "(let sent = drop (length (requests w))
                 (requests (snd (mget env urlP C filename M force dop w)))
    in sent = []
       \<or> (hd sent = GET_probe urlP
          \<and> issued_before (GET_probe urlP) (HEAD urlP) sent
          \<and> \<not> issued_before (HEAD urlP) (GET_probe urlP) sent))"
  using mget_requests [of env urlP C filename M force dop w]
  by (auto simp: Let_def issued_before_def)

theorem range_check_first_witness:
  "requests (snd (mget (example_env [1, 2, 3, 4, 5] ''5'') example_url 2 None 4 False 1 fresh_world))
     = [GET_probe example_url, HEAD example_url, GET_range example_url 0 1,
        GET_range example_url 2 3, GET_range example_url 4 5]
   \<and> issued_before (GET_probe example_url) (HEAD example_url)
        (requests (snd (mget (example_env [1, 2, 3, 4, 5] ''5'') example_url 2 None 4 False 1 fresh_world)))"
proof -
  have "requests fresh_world = []" by (simp add: fresh_world_def)
  then show ?thesis
    using range_check_first [of fresh_world "example_env [1, 2, 3, 4, 5] ''5''" example_url 2
        None 4 False 1]
    by (simp add: Let_def example_run)
qed

subsection \<open>Collecting the results\<close>

lemma results_first_error:
  "\<exists>a\<in>set xs. isl (f a) \<Longrightarrow>
     \<exists>pre a e post. xs = pre @ a # post \<and> (\<forall>b\<in>set pre. \<not> isl (f b)) \<and> f a = Inl e
       \<and> results (map f xs) = Inl e"
proof (induction xs)
  case Nil
  then show ?case by simp
next
  case (Cons x xs)
  show ?case
  proof (cases "f x")
    case (Inl e)
    then have "x # xs = [] @ x # xs \<and> (\<forall>b\<in>set []. \<not> isl (f b)) \<and> f x = Inl e
        \<and> results (map f (x # xs)) = Inl e" by simp
    then show ?thesis by blast
  next
    case (Inr v)
    with Cons.prems have "\<exists>a\<in>set xs. isl (f a)" by auto
    from Cons.IH[OF this] obtain pre a e post where
      h: "xs = pre @ a # post" "\<forall>b\<in>set pre. \<not> isl (f b)" "f a = Inl e"
         "results (map f xs) = Inl e" by blast
    from h Inr have "x # xs = (x # pre) @ a # post \<and> (\<forall>b\<in>set (x # pre). \<not> isl (f b))
        \<and> f a = Inl e \<and> results (map f (x # xs)) = Inl e" by simp
    then show ?thesis by blast
  qed
qed

lemma results_Inr: "results fs = Inr xs \<Longrightarrow> fs = map Inr xs"
proof (induction fs arbitrary: xs)
  case Nil
  then show ?case by simp
next
  case (Cons f fs)
  then show ?case by (cases f; cases "results fs") auto
qed

lemma results_map_Inr: "results (map Inr xs) = Inr xs"
  by (induction xs) simp_all

lemma mget_fetch_error:
  assumes "force \<or> \<not> isfile w (dest_filename urlP filename)"
    and "respond env (GET_probe urlP) = Inr r1" and "status r1 = 206"
    and "respond env (HEAD urlP) = Inr r2" and "status r2 = 200"
    and "content_length r2 = Some s" and "py_int s = Some S"
    and "chunk_args urlP S C M = Inr args" and "0 < dop"
    and "results (map (get_chunk env) (as_completed env args)) = Inl e"
  shows "fst (mget env urlP C filename M force dop w) = Inl e
       \<and> files (snd (mget env urlP C filename M force dop w)) = files w"
  using assms
  by (auto simp: mget_def is_range_supported_def Let_def write_chunks_def get_size_def
        get_head_resp_def)

subsection \<open>A failing fetch\<close>

lemma faulty_run:
  "mget (faulty_env [1, 2, 3, 4, 5] ''5'' (GET_range example_url 2 3)
           \<lparr>status = 500, content_length = None, body = [69, 82, 82]\<rparr>)
        example_url 2 None 4 False 1 fresh_world =
     (Inr (),
      \<lparr>files = [''data.bin'' \<mapsto> [1, 2, 69, 82, 82, 5]],
       requests = [GET_probe example_url, HEAD example_url, GET_range example_url 0 1,
                   GET_range example_url 2 3, GET_range example_url 4 5]\<rparr>)"
  by (simp add: mget_def Let_def is_range_supported_def write_chunks_def get_size_def
        get_head_resp_def open_wb_def append_part_def as_completed_def example_plan
        py_int_example isfile_def fresh_world_def faulty_env_def example_env_def
        range_server_def get_chunk_def chunk_request_def arg_start_def arg_end_def arg_key_def
        example_dest)

text \<open>
  C4, as claimed: whenever a chunk fetch fails, \<^verbatim>\<open>mget\<close> ends with the error and
  writes no file. The code counts a fetch as failed only when \<^verbatim>\<open>get_chunk\<close> raises:
  the status of a chunk's response is never looked at. When the request for the
  bytes 2 to 3 of a five-byte file is answered with status 500 and the body
  \<^verbatim>\<open>ERR\<close>, \<^verbatim>\<open>mget\<close> returns normally and the destination holds that body in the
  place of the chunk.
\<close>

theorem fetch_failure_counterexample:
  "respond (faulty_env [1, 2, 3, 4, 5] ''5'' (GET_range example_url 2 3)
              \<lparr>status = 500, content_length = None, body = [69, 82, 82]\<rparr>)
           (GET_range example_url 2 3)
     = Inr \<lparr>status = 500, content_length = None, body = [69, 82, 82]\<rparr>
   \<and> fst (mget (faulty_env [1, 2, 3, 4, 5] ''5'' (GET_range example_url 2 3)
                 \<lparr>status = 500, content_length = None, body = [69, 82, 82]\<rparr>)
              example_url 2 None 4 False 1 fresh_world) = Inr ()
   \<and> files (snd (mget (faulty_env [1, 2, 3, 4, 5] ''5'' (GET_range example_url 2 3)
                        \<lparr>status = 500, content_length = None, body = [69, 82, 82]\<rparr>)
                     example_url 2 None 4 False 1 fresh_world)) ''data.bin''
       = Some [1, 2, 69, 82, 82, 5]"
  by (simp add: faulty_run) (simp add: faulty_env_def)

text \<open>
  C4, amended. Let the checks before the download pass (destination absent or
  \<^verbatim>\<open>force\<close>, probe answered with 206, size read as \<open>S\<close>, a plan \<open>args\<close>, a positive
  number of workers). If the fetch of some planned chunk raises, then \<^verbatim>\<open>mget\<close> ends
  with the exception of the first fetch, in the order of completion, that raised,
  and the files are what they were: the destination is neither created nor
  truncated nor written to.
\<close>

theorem fetch_failure:
  assumes "force \<or> \<not> isfile w (dest_filename urlP filename)"
    and "respond env (GET_probe urlP) = Inr r1" and "status r1 = 206"
    and "respond env (HEAD urlP) = Inr r2" and "status r2 = 200"
    and "content_length r2 = Some s" and "py_int s = Some S"
    and "chunk_args urlP S C M = Inr args" and "0 < dop"
    and "\<exists>a\<in>set args. isl (get_chunk env a)"
  shows "\<exists>pre a e post. as_completed env args = pre @ a # post
           \<and> (\<forall>b\<in>set pre. \<not> isl (get_chunk env b))
           \<and> get_chunk env a = Inl e
           \<and> fst (mget env urlP C filename M force dop w) = Inl e
           \<and> files (snd (mget env urlP C filename M force dop w)) = files w"
proof -
  have "set (as_completed env args) = set args" by (simp add: as_completed_def)
  with assms(10) have "\<exists>a\<in>set (as_completed env args). isl (get_chunk env a)" by simp
  from results_first_error[OF this] obtain pre a e post where
    h: "as_completed env args = pre @ a # post" "\<forall>b\<in>set pre. \<not> isl (get_chunk env b)"
       "get_chunk env a = Inl e" "results (map (get_chunk env) (as_completed env args)) = Inl e"
    by blast
  from mget_fetch_error[OF assms(1-9) h(4)] h(1-3) show ?thesis by blast
qed

lemma flaky_plan_fetches:
  "get_chunk (flaky_env [1, 2, 3, 4, 5] ''5'' (GET_range example_url 2 3)) (example_url, 2, 3, 2)
     = Inl OSError"
  "get_chunk (flaky_env [1, 2, 3, 4, 5] ''5'' (GET_range example_url 2 3)) (example_url, 4, 5, 4)
     = Inr (4, [5])"
  by (simp_all add: get_chunk_def chunk_request_def arg_start_def arg_end_def arg_key_def
        flaky_env_def example_env_def range_server_def)

theorem fetch_failure_witness:
  "(\<exists>a\<in>set [(example_url, 0, 1, 0), (example_url, 2, 3, 2), (example_url, 4, 5, 4)].
       isl (get_chunk (flaky_env [1, 2, 3, 4, 5] ''5'' (GET_range example_url 2 3)) a))
   \<and> fst (mget (flaky_env [1, 2, 3, 4, 5] ''5'' (GET_range example_url 2 3)) example_url 2 None 4
           False 1 fresh_world) = Inl OSError
   \<and> files (snd (mget (flaky_env [1, 2, 3, 4, 5] ''5'' (GET_range example_url 2 3)) example_url 2
                  None 4 False 1 fresh_world)) = files fresh_world"
proof -
  let ?env = "flaky_env [1, 2, 3, 4, 5] ''5'' (GET_range example_url 2 3)"
  let ?args = "[(example_url, 0, 1, 0), (example_url, 2, 3, 2), (example_url, 4, 5, 4)]"
  have bad: "\<exists>a\<in>set ?args. isl (get_chunk ?env a)" by (simp add: flaky_plan_fetches)
  have only: "e = OSError" if "get_chunk ?env a = Inl e" for a e
    using that
    by (auto simp: get_chunk_def flaky_env_def example_env_def range_server_def
          split: if_splits request.splits sum.splits)
  have "\<not> isfile fresh_world (dest_filename example_url None)"
    by (simp add: isfile_def fresh_world_def)
  moreover have "respond ?env (GET_probe example_url)
      = Inr \<lparr>status = 206, content_length = Some ''1'', body = [5]\<rparr>"
    by (simp add: flaky_env_def example_env_def range_server_def)
  moreover have "respond ?env (HEAD example_url)
      = Inr \<lparr>status = 200, content_length = Some ''5'', body = []\<rparr>"
    by (simp add: flaky_env_def example_env_def range_server_def)
  ultimately obtain a e where "get_chunk ?env a = Inl e"
    "fst (mget ?env example_url 2 None 4 False 1 fresh_world) = Inl e"
    "files (snd (mget ?env example_url 2 None 4 False 1 fresh_world)) = files fresh_world"
    using fetch_failure [of False fresh_world example_url None ?env
        "\<lparr>status = 206, content_length = Some ''1'', body = [5]\<rparr>"
        "\<lparr>status = 200, content_length = Some ''5'', body = []\<rparr>" "''5''" 5 2 4 ?args 1]
      example_plan bad
    by (auto simp: py_int_example)
  with only[of a e] bad show ?thesis by simp
qed

subsection \<open>The keys of the chunks\<close>

lemma range_from_mem:
  "x \<in> set (range_from i stop step) \<Longrightarrow>
     step dvd (x - i) \<and> (0 < step \<longrightarrow> i \<le> x) \<and> (step < 0 \<longrightarrow> x \<le> i)"
proof (induction i stop step rule: range_from.induct)
  case (1 i stop step)
  show ?case
  proof (cases "(0 < step \<and> i < stop) \<or> (step < 0 \<and> stop < i)")
    case False
    with 1(2) show ?thesis by (simp add: range_from_stop)
  next
    case True
    with 1(2) have "x = i \<or> x \<in> set (range_from (i + step) stop step)"
      by (simp add: range_from_Cons)
    then show ?thesis
    proof
      assume "x = i" then show ?thesis by simp
    next
      assume "x \<in> set (range_from (i + step) stop step)"
      from 1(1)[OF True this] have d: "step dvd (x - (i + step))" and
        u: "0 < step \<longrightarrow> i + step \<le> x" and l: "step < 0 \<longrightarrow> x \<le> i + step" by auto
      have "x - i = (x - (i + step)) + step" by simp
      with d have "step dvd (x - i)" by (metis dvd_add dvd_refl)
      with u l show ?thesis by auto
    qed
  qed
qed

lemma range_from_distinct: "step \<noteq> 0 \<Longrightarrow> distinct (range_from i stop step)"
proof (induction i stop step rule: range_from.induct)
  case (1 i stop step)
  show ?case
  proof (cases "(0 < step \<and> i < stop) \<or> (step < 0 \<and> stop < i)")
    case False
    then show ?thesis by (simp add: range_from_stop)
  next
    case True
    have "i \<notin> set (range_from (i + step) stop step)"
      using range_from_mem[of i "i + step" stop step] True by auto
    with 1(1)[OF True 1(2)] True show ?thesis by (simp add: range_from_Cons)
  qed
qed

lemma plan_keys:
  assumes "chunk_args u S C M = Inr args"
  shows "distinct (map arg_key args) \<and> (\<forall>a\<in>set args. C dvd arg_key a)"
proof -
  let ?offs = "range_from 0 (min S (C * M + 10)) C"
  from assms have C: "C \<noteq> 0" and args: "args = slice_to (map (get_chunk_args u C S) ?offs) M"
    by (auto simp: chunk_args_def Let_def py_range_def split: if_splits)
  have keys: "map arg_key (map (get_chunk_args u C S) ?offs) = ?offs"
    by (simp add: o_def get_chunk_args_def arg_key_def)
  obtain n where n: "args = take n (map (get_chunk_args u C S) ?offs)"
    using args by (auto simp: slice_to_def split: if_splits)
  then have k: "map arg_key args = take n ?offs" using keys by (simp only: take_map[symmetric])
  have "distinct (take n ?offs)" using range_from_distinct[OF C] by (rule distinct_take)
  moreover have "C dvd x" if "x \<in> set (take n ?offs)" for x
    using range_from_mem[of x 0 "min S (C * M + 10)" C] that by (auto dest: in_set_takeD)
  ultimately show ?thesis using k by (metis (no_types, lifting) image_eqI list.set_map)
qed

lemma get_chunk_key: "get_chunk env a = Inr p \<Longrightarrow> fst p = arg_key a"
  by (auto simp: get_chunk_def split: sum.splits)

lemma fetched_keys:
  "map (get_chunk env) ys = map Inr parts \<Longrightarrow> map fst parts = map arg_key ys"
proof (induction ys arbitrary: parts)
  case Nil
  then show ?case by simp
next
  case (Cons y ys)
  then obtain p ps where "parts = p # ps" "get_chunk env y = Inr p"
    "map (get_chunk env) ys = map Inr ps" by (cases parts) auto
  with Cons.IH[of ps] show ?case by (simp add: get_chunk_key)
qed

lemma fst_mono_lex: "(p :: int \<times> bytes) \<le> q \<Longrightarrow> fst p \<le> fst q"
  by (cases p; cases q) auto

lemma sort_by_key:
  assumes "distinct (map fst (ps :: (int \<times> bytes) list))"
  shows "sort ps = sort_key fst ps"
proof -
  have "sorted (sort ps)" by simp
  then have "sorted (map fst (sort ps))"
    by (simp only: sorted_map) (erule sorted_wrt_mono_rel[rotated], simp add: fst_mono_lex)
  moreover have "inj_on fst (set ps)" using assms by (simp add: distinct_map)
  moreover have "mset ps = mset (sort ps)" by simp
  ultimately show ?thesis by (metis sort_key_inj_key_eq)
qed

text \<open>
  C10. Whenever \<^verbatim>\<open>write_chunks\<close> returns its list of \<^verbatim>\<open>(key, content)\<close> pairs,
  the keys are pairwise distinct multiples of the chunk size, and sorting the pairs
  (lexicographically, as \<^verbatim>\<open>sorted(parts)\<close> does) gives the same list as sorting
  them by key alone: the contents never decide the order.
\<close>

theorem keys_distinct:
  assumes "write_chunks env urlP C M dop w = (Inr parts, w')"
  shows "distinct (map fst parts) \<and> (\<forall>p\<in>set parts. C dvd fst p)
       \<and> sort parts = sort_key fst parts"
proof -
  from assms obtain S args where
    plan: "chunk_args urlP S C M = Inr args" and
    res: "results (map (get_chunk env) (as_completed env args)) = Inr parts"
    by (auto simp: write_chunks_def split: prod.splits sum.splits if_splits)
  from results_Inr[OF res] have "map fst parts = map arg_key (as_completed env args)"
    by (rule fetched_keys)
  then have m: "mset (map fst parts) = mset (map arg_key args)"
    by (simp add: as_completed_def)
  from plan_keys[OF plan] have d: "distinct (map arg_key args)"
    and v: "\<forall>a\<in>set args. C dvd arg_key a" by simp_all
  from m d have d': "distinct (map fst parts)" by (metis mset_eq_imp_distinct_iff)
  from m have e: "fst ` set parts = arg_key ` set args" by (metis mset_eq_setD list.set_map)
  have "C dvd fst p" if "p \<in> set parts" for p
  proof -
    from that e have "fst p \<in> arg_key ` set args" by blast
    with v show ?thesis by auto
  qed
  then have "\<forall>p\<in>set parts. C dvd fst p" by simp
  with d' sort_by_key[OF d'] show ?thesis by simp
qed

lemma example_parts:
  "write_chunks (example_env [1, 2, 3, 4, 5] ''5'') example_url 2 4 1 fresh_world =
     (Inr [(4, [5]), (2, [3, 4]), (0, [1, 2])],
      \<lparr>files = Map.empty,
       requests = [HEAD example_url, GET_range example_url 0 1, GET_range example_url 2 3,
                   GET_range example_url 4 5]\<rparr>)"
  by (simp add: write_chunks_def get_size_def get_head_resp_def as_completed_def example_plan
        py_int_example fresh_world_def example_env_def range_server_def get_chunk_def
        chunk_request_def arg_start_def arg_end_def arg_key_def)

theorem keys_distinct_witness:
  "fst (write_chunks (example_env [1, 2, 3, 4, 5] ''5'') example_url 2 4 1 fresh_world)
     = Inr [(4, [5]), (2, [3, 4]), (0, [1, 2])]
   \<and> distinct (map fst [(4 :: int, [5 :: byte]), (2, [3, 4]), (0, [1, 2])])
   \<and> sort [(4 :: int, [5 :: byte]), (2, [3, 4]), (0, [1, 2])]
        = sort_key fst [(4, [5]), (2, [3, 4]), (0, [1, 2])]"
  using keys_distinct [OF example_parts] by (simp add: example_parts)

subsection \<open>Reassembly\<close>

lemma position_nth:
  assumes "distinct ps" "i < length ps"
  shows "length (takeWhile (\<lambda>x. x \<noteq> ps ! i) ps) = i"
proof -
  have "takeWhile (\<lambda>x. x \<noteq> ps ! i) ps = take i ps"
  proof (rule takeWhile_eq_take_P_nth)
    fix j assume "j < i" "j < length ps"
    with assms show "ps ! j \<noteq> ps ! i" by (simp add: nth_eq_iff_index_eq)
  next
    show "\<not> ps ! i \<noteq> ps ! i" by simp
  qed
  with assms(2) show ?thesis by simp
qed

lemma any_completion_order:
  assumes "chunk_args u S C M = Inr args" "mset ps = mset args"
  shows "\<exists>ft. as_completed (env\<lparr>finish_time := ft\<rparr>) args = ps"
proof -
  from plan_keys[OF assms(1)] have "distinct (map arg_key args)" by simp
  then have "distinct args" by (simp add: distinct_map)
  with assms(2) have d: "distinct ps" by (metis mset_eq_imp_distinct_iff)
  let ?ft = "\<lambda>a. length (takeWhile (\<lambda>x. x \<noteq> a) ps)"
  have pos: "map ?ft ps = [0..<length ps]"
    by (rule nth_equalityI) (simp_all add: position_nth[OF d])
  then have "sorted (map ?ft ps)" by simp
  moreover from pos have "distinct (map ?ft ps)" by simp
  then have "inj_on ?ft (set ps)" by (simp add: distinct_map)
  then have "inj_on ?ft (set args)" using assms(2) by (metis mset_eq_setD)
  moreover have "mset args = mset ps" using assms(2) by simp
  ultimately have "sort_key ?ft args = ps" by (metis sort_key_inj_key_eq)
  then have "as_completed (env\<lparr>finish_time := ?ft\<rparr>) args = ps"
    by (simp add: as_completed_def)
  then show ?thesis by blast
qed

lemma concat_chunks: "concat (map (\<lambda>k. take c (drop (k * c) xs)) [0..<n]) = take (n * c) xs"
proof (induction n)
  case 0
  show ?case by simp
next
  case (Suc n)
  have "take (n * c) xs @ take c (drop (n * c) xs) = take (n * c + c) xs"
    by (simp add: take_add)
  with Suc show ?case by (simp add: add.commute)
qed

lemma covered_prefix:
  assumes "0 < C" "0 < M"
  shows "take (nat ((min (int (length src)) (C * M) + C - 1) div C) * nat C) src
       = take (nat (min (int (length src)) (C * M))) src"
proof -
  let ?S = "int (length src)"
  let ?q = "(min ?S (C * M) + C - 1) div C"
  have CM: "0 < C * M" using assms by simp
  show ?thesis
  proof (cases "?S \<le> C * M")
    case True
    then have x: "min ?S (C * M) = ?S" by simp
    have "\<not> ?q < ?q" by simp
    then have "\<not> ?q * C < min ?S (C * M)" using lt_ceil_iff[OF assms(1), of ?q "min ?S (C * M)"] by simp
    then have ge: "?S \<le> ?q * C" using x by simp
    have "0 \<le> ?q" using assms x by (simp add: pos_imp_zdiv_nonneg_iff)
    then have "nat ?q * nat C = nat (?q * C)" using assms by (simp add: nat_mult_distrib)
    with ge have "length src \<le> nat ?q * nat C" by linarith
    then show ?thesis using x by simp
  next
    case False
    then have x: "min ?S (C * M) = C * M" by simp
    then have "?q = M" using assms by (simp add: ceil_mult)
    then have "nat ?q * nat C = nat (C * M)" using assms by (simp add: nat_mult_distrib mult.commute)
    then show ?thesis using x by simp
  qed
qed

lemma payload_window:
  assumes "0 < C" "0 \<le> s" "s < int (length src)"
  shows "take (nat (min (s + C - 1) (int (length src)) - s + 1)) (drop (nat s) src)
       = take (nat C) (drop (nat s) src)"
proof (cases "s + C - 1 \<le> int (length src)")
  case True
  then show ?thesis by (simp add: min_def)
next
  case False
  then have m: "min (s + C - 1) (int (length src)) = int (length src)" by simp
  have l: "length (drop (nat s) src) = nat (int (length src) - s)" using assms by simp
  have "length (drop (nat s) src) \<le> nat (int (length src) - s + 1)" using l by linarith
  moreover have "length (drop (nat s) src) \<le> nat C" using False l by linarith
  ultimately show ?thesis using m by simp
qed

lemma append_parts_ok:
  "writable env f \<Longrightarrow> files w f = Some old \<Longrightarrow>
     fst (append_parts env f ps w) = Inr ()
     \<and> files (snd (append_parts env f ps w)) f = Some (old @ concat (map snd ps))"
proof (induction ps arbitrary: w old)
  case Nil
  then show ?case by simp
next
  case (Cons p ps)
  obtain i part where p: "p = (i, part)" by (cases p)
  let ?w' = "w\<lparr>files := (files w)(f \<mapsto> old @ part)\<rparr>"
  have a: "append_part env f part w = (Inr (), ?w')" using Cons.prems by (simp add: append_part_def)
  have "files ?w' f = Some (old @ part)" by simp
  from Cons.IH[OF Cons.prems(1) this] a p show ?case by simp
qed

lemma insort_key_map:
  "insort_key f (g x) (map g ys) = map g (insort_key (\<lambda>y. f (g y)) x ys)"
  by (induction ys) simp_all

lemma sort_key_map: "sort_key f (map g xs) = map g (sort_key (\<lambda>x. f (g x)) xs)"
  by (induction xs) (simp_all add: insort_key_map)

text \<open>What a planned chunk brings back from a server that honours ranges.\<close>

lemma fetched_chunk:
  assumes "honours_ranges env u src" "0 < C" "0 < M" "k < nat ((min (int (length src)) (C * M) + C - 1) div C)"
  shows "get_chunk env (get_chunk_args u C (int (length src)) (int k * C))
       = Inr (int k * C, take (nat C) (drop (k * nat C) src))"
proof -
  let ?S = "int (length src)"
  let ?s = "int k * C"
  let ?e = "min (?s + C - 1) ?S"
  from assms(4) have "int k < (min ?S (C * M) + C - 1) div C" by linarith
  then have "?s < min ?S (C * M)" using lt_ceil_iff[OF assms(2), of "int k"] by simp
  then have lt: "?s < ?S" by simp
  have nn: "0 \<le> ?s" using assms(2) by simp
  have le: "?s \<le> ?e" using assms(2) lt by simp
  from assms(1) nn le lt obtain r where
    r: "respond env (GET_range u ?s ?e) = Inr r"
       "body r = take (nat (?e - ?s + 1)) (drop (nat ?s) src)"
    unfolding honours_ranges_def by blast
  have "nat ?s = k * nat C" using assms(2) by (simp add: nat_mult_distrib)
  with r(2) payload_window[OF assms(2) nn lt]
  have "body r = take (nat C) (drop (k * nat C) src)" by simp
  with r(1) show ?thesis
    by (simp add: get_chunk_def chunk_request_def get_chunk_args_def arg_start_def arg_end_def
          arg_key_def)
qed

lemma sorted_by_offset:
  assumes "0 < (C::int)"
  shows "sorted (map (\<lambda>k. (int k * C, g k :: bytes)) [0..<n])"
proof -
  have "(int i * C, g i) \<le> (int j * C, g j)" if "i \<le> j" for i j
  proof (cases "i = j")
    case True
    then show ?thesis by simp
  next
    case False
    with that have "int i < int j" by simp
    then have "int i * C < int j * C" using assms by simp
    then show ?thesis by simp
  qed
  then show ?thesis by (simp add: sorted_iff_nth_mono)
qed

text \<open>
  C3. Let the checks before the download pass, the declared length be that of
  \<open>src\<close>, the server honour ranges, and the chunk size, the number of chunks and
  the number of workers be positive. Then, whatever the finishing times of the fetches, \<^verbatim>\<open>mget\<close> returns
  normally and the destination holds the first \<open>min(S, C * M)\<close> bytes of \<open>src\<close>.
  The finishing times are a parameter of \<open>env\<close>, and by \<open>any_completion_order\<close>
  every permutation of the planned fetches is the order of completion for some
  finishing times.
\<close>

theorem reassembly:
  assumes "force \<or> \<not> isfile w (dest_filename urlP filename)"
    and "respond env (GET_probe urlP) = Inr r1" and "status r1 = 206"
    and "respond env (HEAD urlP) = Inr r2" and "status r2 = 200"
    and "content_length r2 = Some s" and "py_int s = Some (int (length src))"
    and "honours_ranges env urlP src"
    and "0 < C" and "0 < M" and "0 < dop"
    and "writable env (dest_filename urlP filename)"
  shows "fst (mget env urlP C filename M force dop w) = Inr ()
       \<and> files (snd (mget env urlP C filename M force dop w)) (dest_filename urlP filename)
           = Some (take (nat (min (int (length src)) (C * M))) src)"
proof -
  let ?S = "int (length src)"
  let ?n = "nat ((min ?S (C * M) + C - 1) div C)"
  let ?arg = "\<lambda>k. get_chunk_args urlP C ?S (int k * C)"
  let ?part = "\<lambda>k. (int k * C, take (nat C) (drop (k * nat C) src))"
  let ?ks = "sort_key (\<lambda>k. finish_time env (?arg k)) [0..<?n]"
  have plan: "chunk_args urlP ?S C M = Inr (map ?arg [0..<?n])"
    using assms(9,10) by (rule chunk_args_plan)
  have order: "as_completed env (map ?arg [0..<?n]) = map ?arg ?ks"
    by (simp add: as_completed_def sort_key_map)
  have "map (get_chunk env) (map ?arg ?ks) = map Inr (map ?part ?ks)"
    using fetched_chunk[OF assms(8,9,10)] by simp
  then have res: "results (map (get_chunk env) (as_completed env (map ?arg [0..<?n])))
      = Inr (map ?part ?ks)"
    using order by (simp only: results_map_Inr)
  have "mset (map ?part [0..<?n]) = mset (map ?part ?ks)" by simp
  moreover have "sorted (map ?part [0..<?n])" using assms(9) by (rule sorted_by_offset)
  ultimately have sorted_parts: "sort (map ?part ?ks) = map ?part [0..<?n]"
    by (rule properties_for_sort)
  have bytes: "concat (map snd (map ?part [0..<?n])) = take (nat (min ?S (C * M))) src"
    using concat_chunks[of "nat C" src ?n] covered_prefix[OF assms(9,10), of src]
    by (simp add: o_def)
  let ?w2 = "w\<lparr>requests := requests w @ [GET_probe urlP] @ [HEAD urlP]
                @ map chunk_request (map ?arg [0..<?n])\<rparr>"
  let ?f = "dest_filename urlP filename"
  let ?w3 = "?w2\<lparr>files := (files ?w2)(?f \<mapsto> [])\<rparr>"
  have run: "mget env urlP C filename M force dop w = append_parts env ?f (map ?part [0..<?n]) ?w3"
    using assms(1-7,11,12) plan res sorted_parts
    by (auto simp: mget_def is_range_supported_def Let_def write_chunks_def get_size_def
          get_head_resp_def open_wb_def)
  have "files ?w3 ?f = Some []" by simp
  from append_parts_ok[OF assms(12) this, of "map ?part [0..<?n]"] bytes run
  show ?thesis by simp
qed

lemma example_honours: "honours_ranges (example_env src cl) u src"
  by (simp add: honours_ranges_def example_env_def range_server_def)

theorem reassembly_witness:
  "honours_ranges (example_env [1, 2, 3, 4, 5] ''5'') example_url [1, 2, 3, 4, 5]
   \<and> py_int ''5'' = Some (int (length [1, 2, 3, 4, 5 :: byte]))
   \<and> fst (mget (example_env [1, 2, 3, 4, 5] ''5'') example_url 2 None 2 False 1 fresh_world) = Inr ()
   \<and> files (snd (mget (example_env [1, 2, 3, 4, 5] ''5'') example_url 2 None 2 False 1 fresh_world))
        ''data.bin'' = Some [1, 2, 3, 4]"
  using reassembly [of False fresh_world example_url None "example_env [1, 2, 3, 4, 5] ''5''"
      "\<lparr>status = 206, content_length = Some ''1'', body = [5]\<rparr>"
      "\<lparr>status = 200, content_length = Some ''5'', body = []\<rparr>" "''5''" "[1, 2, 3, 4, 5]" 2 2 1]
    example_honours [of "[1, 2, 3, 4, 5]" "''5''" example_url]
  by (simp add: py_int_example example_dest isfile_def fresh_world_def example_env_def
        range_server_def)

end
